theory Spec2Isabelle
  imports Complex_Main
begin

section \<open>Strings, exceptions and results\<close>

text \<open>
  A Python \<open>str\<close> is modelled by the bytes of its UTF-8 encoding (a \<open>char\<close> is one
  byte), so that the Cyrillic message texts of the source can be written down exactly.
\<close>

definition utf8 :: "nat list \<Rightarrow> string" where
  "utf8 bs = map char_of bs"

text \<open>
  The exceptions that occur: those the source raises itself, those raised by the Python
  operations it uses, and \<open>LibraryError\<close> for any \<open>Exception\<close> raised by the media
  library. Each carries the text that \<open>str(exc)\<close> returns.
\<close>

datatype exn =
    RuntimeError string
  | ZeroDivisionError string
  | OverflowError string
  | AttributeError string
  | LibraryError string

fun exn_str :: "exn \<Rightarrow> string" where
  "exn_str (RuntimeError m) = m"
| "exn_str (ZeroDivisionError m) = m"
| "exn_str (OverflowError m) = m"
| "exn_str (AttributeError m) = m"
| "exn_str (LibraryError m) = m"

section \<open>\<open>is_valid_proxy\<close>\<close>

text \<open>
  The regular expression of \<open>is_valid_proxy\<close> is embedded as a backtracking matcher: a
  matcher maps the remaining input to the list of inputs that remain after each way of
  matching a prefix, in the order in which Python's \<open>re\<close> tries them.
\<close>

type_synonym matcher = "string \<Rightarrow> string list"

definition lit :: "char \<Rightarrow> matcher" where
  "lit c s = (case s of [] \<Rightarrow> [] | x # xs \<Rightarrow> if x = c then [xs] else [])"

definition cls :: "(char \<Rightarrow> bool) \<Rightarrow> matcher" where
  "cls P s = (case s of [] \<Rightarrow> [] | x # xs \<Rightarrow> if P x then [xs] else [])"

definition seq :: "matcher \<Rightarrow> matcher \<Rightarrow> matcher" where
  "seq p q s = concat (map q (p s))"

fun str :: "string \<Rightarrow> matcher" where
  "str [] s = [s]"
| "str (c # cs) s = seq (lit c) (str cs) s"

definition opt :: "matcher \<Rightarrow> matcher" where
  \<comment> \<open>\<open>p?\<close>, greedy: one occurrence is tried before none\<close>
  "opt p s = p s @ [s]"

fun rep :: "matcher \<Rightarrow> nat \<Rightarrow> nat \<Rightarrow> matcher" where
  \<comment> \<open>\<open>p{lo,hi}\<close>, greedy\<close>
  "rep p lo 0 s = (if lo = 0 then [s] else [])"
| "rep p lo (Suc hi) s =
     concat (map (rep p (lo - 1) hi) (p s)) @ (if lo = 0 then [s] else [])"

definition plus :: "matcher \<Rightarrow> matcher" where
  \<comment> \<open>\<open>p+\<close> for a \<open>p\<close> that consumes at least one character at each repetition, so
      that the length of the input bounds the number of repetitions\<close>
  "plus p s = rep p 1 (length s) s"

definition at_end :: "string \<Rightarrow> bool" where
  \<comment> \<open>\<open>$\<close> without \<open>re.MULTILINE\<close>: at the end of the string, or just before a newline
      that is the last character\<close>
  "at_end s = (s = [] \<or> s = [CHR 0x0A])"

definition re_match :: "matcher \<Rightarrow> string \<Rightarrow> bool" where
  \<comment> \<open>\<open>bool(pattern.match(s))\<close> for a pattern of the form \<open>^p$\<close>\<close>
  "re_match p s = list_ex at_end (p s)"

definition in_range :: "char \<Rightarrow> char \<Rightarrow> char \<Rightarrow> bool" where
  "in_range lo hi c = (of_char lo \<le> (of_char c :: nat) \<and> (of_char c :: nat) \<le> of_char hi)"

definition host_char :: "char \<Rightarrow> bool" where
  \<comment> \<open>\<open>[a-zA-Z0-9\-\.]\<close>\<close>
  "host_char c = (in_range CHR ''a'' CHR ''z'' c \<or> in_range CHR ''A'' CHR ''Z'' c
     \<or> in_range CHR ''0'' CHR ''9'' c \<or> c = CHR ''-'' \<or> c = CHR ''.'')"

definition digit_char :: "char \<Rightarrow> bool" where
  \<comment> \<open>\<open>[0-9]\<close>\<close>
  "digit_char c = in_range CHR ''0'' CHR ''9'' c"

definition proxy_pattern :: matcher where
  \<comment> \<open>\<open>^https?://(?:(?:[a-zA-Z0-9\-\.]+)(?:\:[0-9]{1,5})?)$\<close>, the anchors being part
      of \<open>re_match\<close>\<close>
  "proxy_pattern =
     seq (str ''http'') (seq (opt (lit CHR ''s'')) (seq (str ''://'')
       (seq (plus (cls host_char))
            (opt (seq (lit CHR '':'') (rep (cls digit_char) 1 5))))))"

definition is_valid_proxy :: "string \<Rightarrow> bool" where
  "is_valid_proxy proxy = (if proxy = [] then True else re_match proxy_pattern proxy)"

section \<open>Python floats\<close>

text \<open>
  A Python \<open>float\<close> is an IEEE 754 binary64 number. A finite one is modelled by the
  rational number it denotes; every operation computes the exact result and rounds it to
  the nearest binary64 number, ties to even.
\<close>

datatype pyfloat = Finite rat | PosInf | NegInf

definition pow2 :: "int \<Rightarrow> rat" where
  "pow2 e = (if 0 \<le> e then of_int (2 ^ nat e) else 1 / of_int (2 ^ nat (- e)))"

function bit_length :: "int \<Rightarrow> int" where
  \<comment> \<open>the number of binary digits of a positive integer\<close>
  "bit_length n = (if n \<le> 0 then 0 else 1 + bit_length (n div 2))"
  by pat_completeness auto
termination
  by (relation "measure nat") auto

declare bit_length.simps [simp del]

definition ilog2 :: "rat \<Rightarrow> int" where
  \<comment> \<open>for \<open>0 < x\<close>, the exponent \<open>k\<close> with \<open>2 ^ k \<le> x < 2 ^ (k + 1)\<close>\<close>
  "ilog2 x =
     (let (p, q) = quotient_of x;
          k = bit_length p - bit_length q
      in if pow2 k \<le> x then k else k - 1)"

definition round_half_even :: "rat \<Rightarrow> int" where
  "round_half_even x =
     (let f = \<lfloor>x\<rfloor>; d = x - of_int f
      in if d < 1 / 2 then f
         else if 1 / 2 < d then f + 1
         else if even f then f else f + 1)"

definition grid_exp :: "rat \<Rightarrow> int" where
  \<comment> \<open>for \<open>0 < x\<close>, the exponent of the unit in the last place: 53 significant bits,
      and never below \<open>-1074\<close> (subnormal numbers)\<close>
  "grid_exp x = max (ilog2 x - 52) (- 1074)"

definition nearest :: "rat \<Rightarrow> rat" where
  \<comment> \<open>for \<open>0 < x\<close>, the multiple of \<open>2 ^ grid_exp x\<close> nearest to \<open>x\<close>, ties to even\<close>
  "nearest x = of_int (round_half_even (x / pow2 (grid_exp x))) * pow2 (grid_exp x)"

definition double_round :: "rat \<Rightarrow> pyfloat" where
  \<comment> \<open>round to nearest, overflow to infinity from \<open>2 ^ 1024\<close>\<close>
  "double_round x =
     (if x = 0 then Finite 0
      else
        let y = nearest \<bar>x\<bar>
        in if pow2 1024 \<le> y then (if 0 < x then PosInf else NegInf)
           else Finite (sgn x * y))"

definition py_truediv :: "int \<Rightarrow> int \<Rightarrow> exn + pyfloat" where
  \<comment> \<open>\<open>a / b\<close> on two \<open>int\<close>s: the correctly rounded quotient\<close>
  "py_truediv a b =
     (if b = 0 then Inl (ZeroDivisionError ''division by zero'')
      else case double_round (of_int a / of_int b) of
             Finite q \<Rightarrow> Inr (Finite q)
           | PosInf \<Rightarrow> Inl (OverflowError ''integer division result too large for a float'')
           | NegInf \<Rightarrow> Inl (OverflowError ''integer division result too large for a float''))"

definition float_mul_100 :: "pyfloat \<Rightarrow> pyfloat" where
  \<comment> \<open>\<open>x * 100\<close> on a \<open>float\<close>: \<open>100\<close> converts exactly\<close>
  "float_mul_100 x =
     (case x of Finite q \<Rightarrow> double_round (q * 100) | PosInf \<Rightarrow> PosInf | NegInf \<Rightarrow> NegInf)"

definition py_int :: "pyfloat \<Rightarrow> exn + int" where
  \<comment> \<open>\<open>int(x)\<close> on a \<open>float\<close>: truncation towards zero\<close>
  "py_int x =
     (case x of
        Finite q \<Rightarrow> Inr (if 0 \<le> q then \<lfloor>q\<rfloor> else \<lceil>q\<rceil>)
      | PosInf \<Rightarrow> Inl (OverflowError ''cannot convert float infinity to integer'')
      | NegInf \<Rightarrow> Inl (OverflowError ''cannot convert float infinity to integer''))"

section \<open>The media library\<close>

text \<open>
  The source obtains its streams from an external media library. A stream carries the
  attributes the source reads and the behaviour of its \<open>download\<close>: for an output
  directory, the \<open>bytes_remaining\<close> arguments of the successive calls of the stream's
  \<open>on_progress\<close>, and the exception that ends the transfer, if any.
\<close>

record stream =
  includes_video_track :: bool
  includes_audio_track :: bool
  resolution :: nat
  abr :: nat
  filesize :: "exn + int"
  download :: "string \<Rightarrow> int list \<times> exn option"

record youtube =
  streams :: "exn + stream list"

type_synonym proxies = "(string \<times> string) list"

type_synonym youtube_lib = "string \<Rightarrow> proxies option \<Rightarrow> exn + youtube"

text \<open>
  Modelled from the spec: the stream query of the media library, which is not part of the
  sources. A video job requires a combined audio and video stream (\<open>progressive\<close>), an
  audio job an audio-only stream, and the descriptor of maximum quality rank is taken:
  \<open>order_by\<close> sorts by the rank in ascending order, \<open>desc\<close> reverses, \<open>first\<close> is the
  head of the list, or \<open>None\<close> for the empty list.
\<close>

definition is_progressive :: "stream \<Rightarrow> bool" where
  "is_progressive s = (includes_video_track s \<and> includes_audio_track s)"

definition is_audio_only :: "stream \<Rightarrow> bool" where
  "is_audio_only s = (includes_audio_track s \<and> \<not> includes_video_track s)"

definition filter_streams :: "(stream \<Rightarrow> bool) \<Rightarrow> stream list \<Rightarrow> stream list" where
  "filter_streams P ss = filter P ss"

definition order_by :: "(stream \<Rightarrow> nat) \<Rightarrow> stream list \<Rightarrow> stream list" where
  "order_by rank ss = sort_key rank ss"

definition desc :: "stream list \<Rightarrow> stream list" where
  "desc ss = rev ss"

definition first :: "stream list \<Rightarrow> stream option" where
  "first ss = (case ss of [] \<Rightarrow> None | s # _ \<Rightarrow> Some s)"

section \<open>\<open>Worker\<close>\<close>

record Worker =
  url :: string
  out_path :: string
  proxy :: string
  fmt :: string

text \<open>The two signals of a worker; a run is observed as the list of its emissions.\<close>

datatype notification = progress int | finished string

fun is_finished :: "notification \<Rightarrow> bool" where
  "is_finished (finished m) = True"
| "is_finished (progress p) = False"

text \<open>The message texts of the source, as UTF-8.\<close>

definition connect_error_text :: string where
  "connect_error_text = utf8 [226, 157, 140, 32, 208, 158, 209, 136, 208, 184, 208, 177, 208,
     186, 208, 176, 32, 208, 191, 209, 128, 208, 184, 32, 208, 191, 208, 190, 208, 180, 208,
     186, 208, 187, 209, 142, 209, 135, 208, 181, 208, 189, 208, 184, 208, 184, 32, 208, 186,
     32, 89, 111, 117, 84, 117, 98, 101, 58, 32]"

definition download_error_text :: string where
  "download_error_text = utf8 [226, 157, 140, 32, 208, 158, 209, 136, 208, 184, 208, 177, 208,
     186, 208, 176, 32, 208, 191, 209, 128, 208, 184, 32, 209, 129, 208, 186, 208, 176, 209,
     135, 208, 184, 208, 178, 208, 176, 208, 189, 208, 184, 208, 184, 58, 32]"

definition saved_text :: string where
  "saved_text = utf8 [226, 156, 133, 32, 208, 161, 208, 190, 209, 133, 209, 128, 208, 176,
     208, 189, 208, 181, 208, 189, 208, 190, 58, 32]"

definition no_stream_text :: string where
  "no_stream_text = utf8 [208, 159, 208, 190, 208, 180, 209, 133, 208, 190, 208, 180, 209,
     143, 209, 137, 208, 184, 208, 185, 32, 208, 191, 208, 190, 209, 130, 208, 190, 208, 186,
     32, 208, 189, 208, 181, 32, 208, 189, 208, 176, 208, 185, 208, 180, 208, 181, 208, 189]"

definition on_progress :: "int \<Rightarrow> int \<Rightarrow> exn + int" where
  \<comment> \<open>the callback \<open>_on_progress\<close>: the percentage it emits, or the exception it raises\<close>
  "on_progress tot bytes_remaining =
     (let downloaded = tot - bytes_remaining
      in case py_truediv downloaded tot of
           Inl e \<Rightarrow> Inl e
         | Inr q \<Rightarrow> py_int (float_mul_100 q))"

fun run_callbacks :: "int \<Rightarrow> int list \<Rightarrow> notification list \<times> exn option" where
  \<comment> \<open>the calls of the callback made by one transfer, up to the first that raises\<close>
  "run_callbacks tot [] = ([], None)"
| "run_callbacks tot (b # bs) =
     (case on_progress tot b of
        Inl e \<Rightarrow> ([], Some e)
      | Inr p \<Rightarrow> (let (ns, r) = run_callbacks tot bs in (progress p # ns, r)))"

definition select_stream :: "string \<Rightarrow> stream list \<Rightarrow> stream option" where
  "select_stream f ss =
     (if f = ''video''
      then first (desc (order_by resolution (filter_streams is_progressive ss)))
      else first (desc (order_by abr (filter_streams is_audio_only ss))))"

definition transfer :: "Worker \<Rightarrow> youtube \<Rightarrow> notification list \<times> exn option" where
  \<comment> \<open>the body of the second \<open>try\<close>: the emissions, and the exception that leaves it\<close>
  "transfer w yt =
     (case streams yt of
        Inl e \<Rightarrow> ([], Some e)
      | Inr ss \<Rightarrow>
         (case select_stream (fmt w) ss of
            None \<Rightarrow> ([], Some (RuntimeError no_stream_text))
          | Some st \<Rightarrow>
             (case filesize st of
                Inl e \<Rightarrow> ([], Some e)
              | Inr tot \<Rightarrow>
                 (let (bs, outcome) = download st (out_path w);
                      (ns, r) = run_callbacks tot bs
                  in case r of
                       Some e \<Rightarrow> (ns, Some e)
                     | None \<Rightarrow>
                        (case outcome of
                           Some e \<Rightarrow> (ns, Some e)
                         | None \<Rightarrow> (ns @ [finished (saved_text @ out_path w)], None))))))"

definition proxies_of :: "string \<Rightarrow> proxies option" where
  "proxies_of p = (if p \<noteq> [] then Some [(''http'', p), (''https'', p)] else None)"

definition Worker_run :: "youtube_lib \<Rightarrow> Worker \<Rightarrow> notification list" where
  \<comment> \<open>\<open>Worker.run\<close>, run to its end, with the library's \<open>YouTube\<close> as a parameter\<close>
  "Worker_run YouTube w =
     (case YouTube (url w) (proxies_of (proxy w)) of
        Inl exc \<Rightarrow> [finished (connect_error_text @ exn_str exc)]
      | Inr yt \<Rightarrow>
         (case transfer w yt of
            (ns, Some exc) \<Rightarrow> ns @ [finished (download_error_text @ exn_str exc)]
          | (ns, None) \<Rightarrow> ns))"

section \<open>\<open>DownloadThread\<close>\<close>

text \<open>
  The thread object holds its event loop (\<open>None\<close> until \<open>run\<close> has created one) and
  the state that the inherited \<open>isRunning()\<close> reports. An event loop records whether
  \<open>run_forever\<close> is serving it and the coroutines handed to it.
\<close>

record 'c event_loop =
  serving :: bool
  tasks :: "'c list"

record 'c DownloadThread =
  loop :: "'c event_loop option"
  isRunning :: bool

datatype 'c future = Future 'c

definition not_running_text :: string where
  "not_running_text = utf8 [68, 111, 119, 110, 108, 111, 97, 100, 84, 104, 114, 101, 97, 100,
     32, 208, 189, 208, 181, 32, 208, 183, 208, 176, 208, 191, 209, 131, 209, 137, 208, 181,
     208, 189]"

definition no_loop_text :: string where
  "no_loop_text = CHR 0x27 # ''NoneType'' @ CHR 0x27 # '' object has no attribute '' @
     CHR 0x27 # ''call_soon_threadsafe'' @ [CHR 0x27]"

definition DownloadThread_init :: "'c DownloadThread" where
  "DownloadThread_init = \<lparr>loop = None, isRunning = False\<rparr>"

definition start :: "'c DownloadThread \<Rightarrow> (exn + unit) \<times> 'c DownloadThread" where
  \<comment> \<open>the inherited \<open>start()\<close>, which the class does not override: it begins the
      thread, and does nothing when the thread is already running\<close>
  "start t = (if isRunning t then (Inr (), t) else (Inr (), t\<lparr>isRunning := True\<rparr>))"

definition run :: "'c DownloadThread \<Rightarrow> 'c DownloadThread" where
  \<comment> \<open>the thread's body, up to where \<open>run_forever\<close> blocks\<close>
  "run t = t\<lparr>loop := Some \<lparr>serving = True, tasks = []\<rparr>\<rparr>"

definition schedule_task ::
  "'c \<Rightarrow> 'c DownloadThread \<Rightarrow> (exn + 'c future) \<times> 'c DownloadThread" where
  "schedule_task coro t =
     (if \<not> isRunning t then (Inl (RuntimeError not_running_text), t)
      else case loop t of
             None \<Rightarrow> (Inl (AttributeError no_loop_text), t)
           | Some l \<Rightarrow> (Inr (Future coro), t\<lparr>loop := Some (l\<lparr>tasks := tasks l @ [coro]\<rparr>)\<rparr>))"

definition stop :: "'c DownloadThread \<Rightarrow> (exn + unit) \<times> 'c DownloadThread" where
  \<comment> \<open>under the guard, the loop is stopped and \<open>wait()\<close> returns once the thread has
      ended\<close>
  "stop t =
     (case loop t of
        None \<Rightarrow> (Inr (), t)
      | Some l \<Rightarrow>
         if isRunning t
         then (Inr (), t\<lparr>loop := Some (l\<lparr>serving := False\<rparr>), isRunning := False\<rparr>)
         else (Inr (), t))"

section \<open>The selection policy, in the words of the specification\<close>

text \<open>
  The specification filters by kind and takes the maximum quality rank: the rank of a
  video job is the resolution, that of an audio job the bitrate.
\<close>

definition kind_matches :: "string \<Rightarrow> stream \<Rightarrow> bool" where
  "kind_matches f s = (if f = ''video'' then is_progressive s else is_audio_only s)"

definition qualityRank :: "string \<Rightarrow> stream \<Rightarrow> nat" where
  "qualityRank f s = (if f = ''video'' then resolution s else abr s)"

section \<open>Example jobs and library behaviours\<close>

definition audio_job :: Worker where
  "audio_job = \<lparr>url = ''https://youtu.be/dQw4w9WgXcQ'', out_path = ''/tmp'', proxy = [],
     fmt = ''audio''\<rparr>"


definition audio_128 :: stream where
  "audio_128 = \<lparr>includes_video_track = False, includes_audio_track = True, resolution = 0,
     abr = 128, filesize = Inr 1000, download = (\<lambda>d. ([1000, 500, 0], None))\<rparr>"

definition audio_256 :: stream where
  "audio_256 = \<lparr>includes_video_track = False, includes_audio_track = True, resolution = 0,
     abr = 256, filesize = Inr 2000, download = (\<lambda>d. ([2000, 1000, 0], None))\<rparr>"

definition video_720 :: stream where
  "video_720 = \<lparr>includes_video_track = True, includes_audio_track = True, resolution = 720,
     abr = 96, filesize = Inr 5000, download = (\<lambda>d. ([5000, 0], None))\<rparr>"

definition failing_audio :: stream where
  \<comment> \<open>an audio stream whose transfer fails before any progress\<close>
  "failing_audio = \<lparr>includes_video_track = False, includes_audio_track = True,
     resolution = 0, abr = 128, filesize = Inr 1000,
     download = (\<lambda>d. ([], Some (LibraryError no_stream_text)))\<rparr>"

definition lib_of :: "stream list \<Rightarrow> youtube_lib" where
  \<comment> \<open>a library that resolves every target to the given streams\<close>
  "lib_of ss u p = Inr \<lparr>streams = Inr ss\<rparr>"



definition started_thread :: "Worker DownloadThread" where
  \<comment> \<open>after \<open>start()\<close>, once the thread's body has created its loop\<close>
  "started_thread = run (snd (start DownloadThread_init))"

definition stopped_thread :: "Worker DownloadThread" where
  "stopped_thread = snd (stop started_thread)"

section \<open>Auxiliary facts\<close>

lemma run_callbacks_progress_only: "filter is_finished (fst (run_callbacks tot bs)) = []"
  by (induction bs) (auto split: sum.splits prod.splits)

lemma transfer_shape:
  assumes "transfer w yt = (ns, r)"
  shows "case r of
           Some e \<Rightarrow> filter is_finished ns = []
         | None \<Rightarrow> (\<exists>ps m. ns = ps @ [finished m] \<and> filter is_finished ps = [])"
proof -
  have cb: "\<And>tot bs ps r'. run_callbacks tot bs = (ps, r') \<Longrightarrow> filter is_finished ps = []"
    using run_callbacks_progress_only by (metis fst_conv)
  show ?thesis
    using assms
    by (auto simp: transfer_def Let_def dest: cb split: sum.splits option.splits prod.splits)
qed

lemma sorted_map_last_max:
  "sorted (map r ys) \<Longrightarrow> x \<in> set ys \<Longrightarrow> r x \<le> r (last ys)"
  by (induction ys) auto

lemma first_desc: "first (desc ys) = (if ys = [] then None else Some (last ys))"
  by (cases ys rule: rev_cases) (simp_all add: first_def desc_def)

lemma kind_video: "kind_matches ''video'' = is_progressive" "qualityRank ''video'' = resolution"
  by (auto simp: kind_matches_def qualityRank_def fun_eq_iff)

lemma kind_other:
  "f \<noteq> ''video'' \<Longrightarrow> kind_matches f = is_audio_only"
  "f \<noteq> ''video'' \<Longrightarrow> qualityRank f = abr"
  by (auto simp: kind_matches_def qualityRank_def fun_eq_iff)

lemma sort_key_Nil_iff: "(sort_key r xs = []) = (xs = [])"
  by (metis length_0_conv length_sort)

lemma select_stream_eq:
  "select_stream f ss =
     (if filter (kind_matches f) ss = [] then None
      else Some (last (sort_key (qualityRank f) (filter (kind_matches f) ss))))"
proof (cases "f = ''video''")
  case True
  then show ?thesis
    by (simp add: select_stream_def first_desc order_by_def filter_streams_def kind_video
        sort_key_Nil_iff)
next
  case False
  then show ?thesis
    by (simp add: select_stream_def first_desc order_by_def filter_streams_def kind_other
        sort_key_Nil_iff)
qed

lemma select_audio_scenario:
  "select_stream ''audio'' [audio_128, audio_256, video_720] = Some audio_256"
  by (simp add: select_stream_def first_def desc_def order_by_def filter_streams_def
      is_audio_only_def audio_128_def audio_256_def video_720_def)

lemma started_thread_eq:
  "started_thread = \<lparr>loop = Some \<lparr>serving = True, tasks = []\<rparr>, isRunning = True\<rparr>"
  by (simp add: started_thread_def run_def start_def DownloadThread_init_def)

lemma stopped_thread_eq:
  "stopped_thread = \<lparr>loop = Some \<lparr>serving = False, tasks = []\<rparr>, isRunning = False\<rparr>"
  by (simp add: stopped_thread_def started_thread_eq stop_def)

text \<open>A complete successful run: three calls of the callback, then the terminal message.\<close>

lemma audio_job_run:
  "Worker_run (lib_of [audio_128, audio_256, video_720]) audio_job =
     [progress 0, progress 50, progress 100, finished (saved_text @ ''/tmp'')]"
proof -
  have p: "on_progress 2000 2000 = Inr 0" "on_progress 2000 1000 = Inr 50"
    "on_progress 2000 0 = Inr 100"
    by code_simp+
  show ?thesis
    by (simp add: Worker_run_def lib_of_def transfer_def audio_job_def select_audio_scenario p)
      (simp add: audio_256_def p)
qed

subsection \<open>Rounding to binary64\<close>

text \<open>
  \<open>ilog2\<close> is the binary exponent of a positive rational; rounding to nearest is
  monotone and does not cross a number of the grid. Hence, for a positive file size and
  \<open>bytes_remaining\<close> between 0 and the size, the callback raises nothing, the
  percentage it emits lies between 0 and 100, and it does not decrease while
  \<open>bytes_remaining\<close> does not increase.
\<close>

lemma pow2_powi: "pow2 e = 2 powi e"
  by (simp add: pow2_def power_int_def power_one_over)

lemma pow2_pos: "0 < pow2 e"
  by (simp add: pow2_powi)

lemma pow2_add: "pow2 (a + b) = pow2 a * pow2 b"
  by (simp add: pow2_powi power_int_add)

lemma pow2_mono: "a \<le> b \<Longrightarrow> pow2 a \<le> pow2 b"
  by (simp add: pow2_powi power_int_increasing)

lemma pow2_less_imp: "pow2 a < pow2 b \<Longrightarrow> a < b"
  using pow2_mono [of b a] by (cases "a < b") auto

lemma pow2_nonneg_int: "0 \<le> e \<Longrightarrow> pow2 e = of_int (2 ^ nat e)"
  by (simp add: pow2_def)

lemma bit_length_nonneg: "0 \<le> bit_length n"
  by (induction n rule: bit_length.induct) (subst bit_length.simps, simp)

lemma bit_length_upper: "0 < n \<Longrightarrow> n < 2 ^ nat (bit_length n)"
proof (induction n rule: bit_length.induct)
  case (1 n)
  have b: "bit_length n = 1 + bit_length (n div 2)"
    using "1.prems" by (subst bit_length.simps) simp
  have e: "nat (bit_length n) = Suc (nat (bit_length (n div 2)))"
    using b bit_length_nonneg [of "n div 2"] by simp
  have "n div 2 < 2 ^ nat (bit_length (n div 2))"
  proof (cases "0 < n div 2")
    case True
    then show ?thesis using "1.IH" "1.prems" by simp
  next
    case False
    then have "n div 2 = 0" using "1.prems" by simp
    then show ?thesis by simp
  qed
  then have "n div 2 + 1 \<le> 2 ^ nat (bit_length (n div 2))" by simp
  then have "2 * (n div 2) + 2 \<le> 2 * 2 ^ nat (bit_length (n div 2))" by simp
  moreover have "n < 2 * (n div 2) + 2" by presburger
  ultimately show ?case using e by simp
qed

lemma bit_length_lower: "0 < n \<Longrightarrow> 2 ^ nat (bit_length n) \<le> 2 * n"
proof (induction n rule: bit_length.induct)
  case (1 n)
  have b: "bit_length n = 1 + bit_length (n div 2)"
    using "1.prems" by (subst bit_length.simps) simp
  have e: "nat (bit_length n) = Suc (nat (bit_length (n div 2)))"
    using b bit_length_nonneg [of "n div 2"] by simp
  show ?case
  proof (cases "0 < n div 2")
    case True
    then have "2 ^ nat (bit_length (n div 2)) \<le> 2 * (n div 2)"
      using "1.IH" "1.prems" by simp
    moreover have "2 * (n div 2) \<le> n" by presburger
    ultimately show ?thesis using e by simp
  next
    case False
    then have z: "n div 2 = 0" using "1.prems" by simp
    then have "n = 1" using "1.prems" by presburger
    moreover have "bit_length (0::int) = 0" by (subst bit_length.simps) simp
    ultimately show ?thesis using e z by simp
  qed
qed

lemma bit_length_pow2:
  assumes "0 < n"
  shows "of_int n < pow2 (bit_length n)" "pow2 (bit_length n) \<le> 2 * of_int n"
proof -
  have p: "pow2 (bit_length n) = of_int (2 ^ nat (bit_length n))"
    by (rule pow2_nonneg_int) (rule bit_length_nonneg)
  show "of_int n < pow2 (bit_length n)"
    unfolding p using bit_length_upper [OF assms] by (simp only: of_int_less_iff)
  have "(of_int (2 ^ nat (bit_length n)) :: rat) \<le> of_int (2 * n)"
    using bit_length_lower [OF assms] by (simp only: of_int_le_iff)
  then show "pow2 (bit_length n) \<le> 2 * of_int n"
    unfolding p by simp
qed


lemma ilog2_bounds:
  assumes "0 < x"
  shows "pow2 (ilog2 x) \<le> x" "x < pow2 (ilog2 x + 1)"
proof -
  obtain p q where pq: "quotient_of x = (p, q)" by (cases "quotient_of x")
  have q: "0 < q" using pq by (rule quotient_of_denom_pos)
  have x: "x = of_int p / of_int q" using pq by (rule quotient_of_div)
  have p: "0 < p" using assms q unfolding x by (simp add: zero_less_divide_iff)
  let ?k = "bit_length p - bit_length q"
  have k: "pow2 (bit_length p) = pow2 ?k * pow2 (bit_length q)"
    using pow2_add [of ?k "bit_length q"] by simp
  have P: "of_int p < pow2 (bit_length p)" "pow2 (bit_length p) \<le> 2 * of_int p"
    using bit_length_pow2 [OF p] by auto
  have Q: "of_int q < pow2 (bit_length q)" "pow2 (bit_length q) \<le> 2 * of_int q"
    using bit_length_pow2 [OF q] by auto
  have q': "(0::rat) < of_int q" using q by simp
  have up: "x < pow2 (?k + 1)"
  proof -
    have "x * of_int q = of_int p" using q' unfolding x by simp
    also have "\<dots> < pow2 ?k * pow2 (bit_length q)" using P(1) k by simp
    also have "\<dots> \<le> pow2 ?k * (2 * of_int q)"
      using Q(2) pow2_pos [of ?k] by (simp only: mult_le_cancel_left_pos)
    finally have "x * of_int q < (2 * pow2 ?k) * of_int q" by (simp add: mult_ac)
    then have "x < 2 * pow2 ?k" using q' by (simp only: mult_less_cancel_right_pos)
    then show ?thesis using pow2_add [of ?k 1] by (simp add: pow2_def)
  qed
  have lo: "pow2 (?k - 1) < x"
  proof -
    have "pow2 ?k * of_int q < pow2 ?k * pow2 (bit_length q)"
      using Q(1) pow2_pos [of ?k] by (simp only: mult_less_cancel_left_pos)
    also have "\<dots> \<le> 2 * of_int p" using P(2) k by simp
    also have "\<dots> = (2 * x) * of_int q" using q' unfolding x by simp
    finally have "pow2 ?k < 2 * x" using q' by (simp only: mult_less_cancel_right_pos)
    moreover have "pow2 ?k = 2 * pow2 (?k - 1)"
      using pow2_add [of "?k - 1" 1] by (simp add: pow2_def)
    ultimately show ?thesis by simp
  qed
  have il: "ilog2 x = (if pow2 ?k \<le> x then ?k else ?k - 1)"
    by (simp add: ilog2_def pq Let_def)
  show "pow2 (ilog2 x) \<le> x" using lo by (simp add: il)
  show "x < pow2 (ilog2 x + 1)" using up by (simp add: il)
qed

lemma ilog2_le:
  assumes "0 < x" "x < pow2 (j + 1)"
  shows "ilog2 x \<le> j"
proof -
  have "pow2 (ilog2 x) < pow2 (j + 1)"
    using ilog2_bounds(1) [OF assms(1)] assms(2) by simp
  then show ?thesis using pow2_less_imp by fastforce
qed

lemma ilog2_mono: "0 < x \<Longrightarrow> x \<le> y \<Longrightarrow> ilog2 x \<le> ilog2 y"
  using ilog2_le [of x "ilog2 y"] ilog2_bounds(2) [of y] by simp

lemma round_half_even_ge: "of_int k \<le> x \<Longrightarrow> k \<le> round_half_even x"
proof -
  assume "of_int k \<le> x"
  then have "k \<le> \<lfloor>x\<rfloor>" by (simp add: le_floor_iff)
  then show ?thesis by (simp add: round_half_even_def Let_def)
qed

lemma round_half_even_le: "x \<le> of_int k \<Longrightarrow> round_half_even x \<le> k"
proof (cases "x = of_int k")
  case True
  then show ?thesis by (simp add: round_half_even_def Let_def)
next
  case False
  assume "x \<le> of_int k"
  with False have "x < of_int k" by simp
  then have "\<lfloor>x\<rfloor> < k" by (simp add: floor_less_iff)
  then show ?thesis by (simp add: round_half_even_def Let_def)
qed

lemma round_half_even_mono:
  assumes "x \<le> y"
  shows "round_half_even x \<le> round_half_even y"
proof (cases "\<lfloor>x\<rfloor> < \<lfloor>y\<rfloor>")
  case True
  have "round_half_even x \<le> \<lfloor>x\<rfloor> + 1" by (simp add: round_half_even_def Let_def)
  also have "\<dots> \<le> \<lfloor>y\<rfloor>" using True by simp
  also have "\<dots> \<le> round_half_even y" by (simp add: round_half_even_def Let_def)
  finally show ?thesis .
next
  case False
  with assms have "\<lfloor>x\<rfloor> = \<lfloor>y\<rfloor>" using floor_mono [of x y] by simp
  then show ?thesis using assms by (auto simp: round_half_even_def Let_def)
qed


lemma nearest_ge: "of_int k * pow2 (grid_exp x) \<le> x \<Longrightarrow> of_int k * pow2 (grid_exp x) \<le> nearest x"
proof -
  assume "of_int k * pow2 (grid_exp x) \<le> x"
  then have "of_int k \<le> x / pow2 (grid_exp x)"
    using pow2_pos [of "grid_exp x"] by (simp add: pos_le_divide_eq)
  then have "k \<le> round_half_even (x / pow2 (grid_exp x))" by (rule round_half_even_ge)
  then have "(of_int k :: rat) \<le> of_int (round_half_even (x / pow2 (grid_exp x)))"
    by (simp only: of_int_le_iff)
  then show ?thesis
    unfolding nearest_def using pow2_pos [of "grid_exp x"]
    by (simp only: mult_le_cancel_right_pos)
qed

lemma nearest_le: "x \<le> of_int k * pow2 (grid_exp x) \<Longrightarrow> nearest x \<le> of_int k * pow2 (grid_exp x)"
proof -
  assume "x \<le> of_int k * pow2 (grid_exp x)"
  then have "x / pow2 (grid_exp x) \<le> of_int k"
    using pow2_pos [of "grid_exp x"] by (simp add: pos_divide_le_eq)
  then have "round_half_even (x / pow2 (grid_exp x)) \<le> k" by (rule round_half_even_le)
  then have "(of_int (round_half_even (x / pow2 (grid_exp x))) :: rat) \<le> of_int k"
    by (simp only: of_int_le_iff)
  then show ?thesis
    unfolding nearest_def using pow2_pos [of "grid_exp x"]
    by (simp only: mult_le_cancel_right_pos)
qed

lemma pow2_on_grid:
  assumes "e \<le> j"
  shows "pow2 j = of_int (2 ^ nat (j - e)) * pow2 e"
proof -
  have "pow2 j = pow2 (j - e) * pow2 e" using pow2_add [of "j - e" e] by simp
  then show ?thesis using assms by (simp add: pow2_nonneg_int)
qed

lemma nearest_le_pow2:
  assumes "0 < x" "x \<le> of_int c * pow2 j" "grid_exp x \<le> j"
  shows "nearest x \<le> of_int c * pow2 j"
proof -
  let ?k = "c * 2 ^ nat (j - grid_exp x)"
  have g: "of_int c * pow2 j = of_int ?k * pow2 (grid_exp x)"
    by (subst pow2_on_grid [OF assms(3)]) simp
  have "x \<le> of_int ?k * pow2 (grid_exp x)" using assms(2) unfolding g .
  then have "nearest x \<le> of_int ?k * pow2 (grid_exp x)" by (rule nearest_le)
  then show ?thesis unfolding g .
qed

lemma nearest_ge_pow2:
  assumes "0 < x" "pow2 j \<le> x" "grid_exp x \<le> j"
  shows "pow2 j \<le> nearest x"
proof -
  have "pow2 j = of_int (2 ^ nat (j - grid_exp x)) * pow2 (grid_exp x)"
    using pow2_on_grid [OF assms(3)] by simp
  then show ?thesis using nearest_ge [of "2 ^ nat (j - grid_exp x)" x] assms(2) by simp
qed

lemma nearest_nonneg: "0 \<le> x \<Longrightarrow> 0 \<le> nearest x"
  using nearest_ge [of 0 x] by simp

lemma grid_exp_mono: "0 < x \<Longrightarrow> x \<le> y \<Longrightarrow> grid_exp x \<le> grid_exp y"
  using ilog2_mono [of x y] by (simp add: grid_exp_def)

lemma nearest_mono:
  assumes "0 < x" "x \<le> y"
  shows "nearest x \<le> nearest y"
proof (cases "grid_exp x = grid_exp y")
  case True
  have "x / pow2 (grid_exp y) \<le> y / pow2 (grid_exp y)"
    using assms(2) pow2_pos [of "grid_exp y"] by (simp add: divide_right_mono)
  then have "round_half_even (x / pow2 (grid_exp y)) \<le> round_half_even (y / pow2 (grid_exp y))"
    by (rule round_half_even_mono)
  then have "(of_int (round_half_even (x / pow2 (grid_exp y))) :: rat)
      \<le> of_int (round_half_even (y / pow2 (grid_exp y)))"
    by (simp only: of_int_le_iff)
  then show ?thesis
    unfolding nearest_def True using pow2_pos [of "grid_exp y"]
    by (simp only: mult_le_cancel_right_pos)
next
  case False
  have y: "0 < y" using assms by simp
  from False have lt: "grid_exp x < grid_exp y"
    using grid_exp_mono [OF assms] by simp
  then have ey: "grid_exp y = ilog2 y - 52" and ex: "ilog2 x - 52 \<le> grid_exp x"
    by (auto simp: grid_exp_def)
  have "ilog2 x + 1 \<le> ilog2 y" using lt ey ex by simp
  then have "pow2 (ilog2 x + 1) \<le> pow2 (ilog2 y)" by (rule pow2_mono)
  then have xg: "x \<le> of_int 1 * pow2 (ilog2 y)"
    using ilog2_bounds(2) [OF assms(1)] by simp
  have "nearest x \<le> of_int 1 * pow2 (ilog2 y)"
    using assms(1) xg by (rule nearest_le_pow2) (use lt ey in simp)
  also have "of_int 1 * pow2 (ilog2 y) \<le> nearest y"
    using nearest_ge_pow2 [OF y ilog2_bounds(1) [OF y]] ey by simp
  finally show ?thesis .
qed


lemma double_round_pos:
  "0 < x \<Longrightarrow>
     double_round x = (if pow2 1024 \<le> nearest x then PosInf else Finite (nearest x))"
  by (simp add: double_round_def Let_def)

lemma double_round_bounded:
  assumes "0 \<le> x" "x \<le> of_int c" "of_int c < pow2 53"
  obtains y where "double_round x = Finite y" "0 \<le> y" "y \<le> of_int c"
proof (cases "x = 0")
  case True
  then show ?thesis using that [of 0] assms by (simp add: double_round_def)
next
  case False
  then have x: "0 < x" using assms(1) by simp
  have "x < pow2 (52 + 1)" using assms(2,3) by simp
  then have "ilog2 x \<le> 52" using x by (intro ilog2_le)
  then have g: "grid_exp x \<le> 0" by (simp add: grid_exp_def)
  have "x \<le> of_int c * pow2 0" using assms(2) by (simp add: pow2_def)
  then have "nearest x \<le> of_int c * pow2 0" using x g by (intro nearest_le_pow2)
  then have n: "nearest x \<le> of_int c" by (simp add: pow2_def)
  have "pow2 53 \<le> pow2 1024" by (rule pow2_mono) simp
  then have "\<not> pow2 1024 \<le> nearest x" using n assms(3) by simp
  then have "double_round x = Finite (nearest x)" using x by (simp add: double_round_pos)
  then show ?thesis using that [of "nearest x"] n nearest_nonneg [of x] x by simp
qed

lemma double_round_mono:
  assumes "0 \<le> x" "x \<le> y" "double_round x = Finite a" "double_round y = Finite b"
  shows "a \<le> b"
proof (cases "x = 0")
  case True
  then have a: "a = 0" using assms(3) by (simp add: double_round_def)
  show ?thesis
  proof (cases "y = 0")
    case True
    then show ?thesis using a assms(4) by (simp add: double_round_def)
  next
    case False
    then have "0 < y" using assms(1,2) by simp
    then have "b = nearest y"
      using assms(4) by (simp add: double_round_pos split: if_splits)
    then show ?thesis using a nearest_nonneg [of y] \<open>0 < y\<close> by simp
  qed
next
  case False
  then have x: "0 < x" using assms(1) by simp
  then have y: "0 < y" using assms(2) by simp
  have "a = nearest x" using assms(3) x by (simp add: double_round_pos split: if_splits)
  moreover have "b = nearest y" using assms(4) y by (simp add: double_round_pos split: if_splits)
  ultimately show ?thesis using nearest_mono [OF x assms(2)] by simp
qed

lemma on_progress_cases:
  assumes "0 < t" "0 \<le> b" "b \<le> t"
  obtains q r where
    "double_round (of_int (t - b) / of_int t) = Finite q" "0 \<le> q" "q \<le> 1"
    "double_round (q * 100) = Finite r" "0 \<le> r" "r \<le> 100"
    "on_progress t b = Inr \<lfloor>r\<rfloor>"
proof -
  let ?x = "of_int (t - b) / of_int t :: rat"
  have t: "(0::rat) < of_int t" using assms(1) by simp
  have x0: "0 \<le> ?x" using assms by simp
  have x1: "?x \<le> of_int 1" using assms t by (simp add: pos_divide_le_eq)
  have one: "(of_int 1 :: rat) < pow2 53" by (simp add: pow2_def)
  obtain q where q: "double_round ?x = Finite q" "0 \<le> q" "q \<le> of_int 1"
    using double_round_bounded [OF x0 x1 one] by blast
  have h0: "0 \<le> q * 100" using q(2) by simp
  have h1: "q * 100 \<le> of_int 100" using q(3) by simp
  have hundred: "(of_int 100 :: rat) < pow2 53" by (simp add: pow2_def)
  obtain r where r: "double_round (q * 100) = Finite r" "0 \<le> r" "r \<le> of_int 100"
    using double_round_bounded [OF h0 h1 hundred] by blast
  have "on_progress t b = Inr \<lfloor>r\<rfloor>"
    using assms(1) q(1) r(1,2)
    by (simp add: on_progress_def py_truediv_def float_mul_100_def py_int_def Let_def)
  then show ?thesis using that [of q r] q r by simp
qed

lemma on_progress_in_range:
  assumes "0 < t" "0 \<le> b" "b \<le> t"
  shows "\<exists>p. on_progress t b = Inr p \<and> 0 \<le> p \<and> p \<le> 100"
proof -
  obtain r :: rat where "0 \<le> r" "r \<le> 100" "on_progress t b = Inr \<lfloor>r\<rfloor>"
    using on_progress_cases [OF assms] by metis
  then show ?thesis by (simp add: le_floor_iff floor_le_iff)
qed

lemma on_progress_mono:
  assumes "0 < t" "0 \<le> b2" "b2 \<le> b1" "b1 \<le> t"
    and "on_progress t b1 = Inr p1" "on_progress t b2 = Inr p2"
  shows "p1 \<le> p2"
proof -
  have b1: "0 \<le> b1" and b2: "b2 \<le> t" using assms by auto
  obtain q1 r1 where 1:
    "double_round (of_int (t - b1) / of_int t) = Finite q1" "0 \<le> q1"
    "double_round (q1 * 100) = Finite r1" "on_progress t b1 = Inr \<lfloor>r1\<rfloor>"
    using on_progress_cases [OF assms(1) b1 assms(4)] by metis
  obtain q2 r2 where 2:
    "double_round (of_int (t - b2) / of_int t) = Finite q2"
    "double_round (q2 * 100) = Finite r2" "on_progress t b2 = Inr \<lfloor>r2\<rfloor>"
    using on_progress_cases [OF assms(1,2) b2] by metis
  have t: "(0::rat) < of_int t" using assms(1) by simp
  have x0: "(0::rat) \<le> of_int (t - b1) / of_int t" using assms by simp
  have "(of_int (t - b1) :: rat) \<le> of_int (t - b2)" using assms(3) by simp
  then have "(of_int (t - b1) :: rat) / of_int t \<le> of_int (t - b2) / of_int t"
    using t by (simp only: divide_right_mono less_imp_le)
  then have "q1 \<le> q2" using double_round_mono [OF x0 _ 1(1) 2(1)] by simp
  then have "q1 * 100 \<le> q2 * 100" by simp
  moreover have "0 \<le> q1 * 100" using 1(2) by simp
  ultimately have "r1 \<le> r2" using double_round_mono [OF _ _ 1(3) 2(2)] by simp
  then have "\<lfloor>r1\<rfloor> \<le> \<lfloor>r2\<rfloor>" by (rule floor_mono)
  then show ?thesis using assms(5,6) 1(4) 2(3) by simp
qed

lemma run_callbacks_percents:
  assumes "0 < t" "\<forall>b \<in> set bs. 0 \<le> b \<and> b \<le> t"
  shows "\<exists>ps. run_callbacks t bs = (map progress ps, None) \<and>
           list_all2 (\<lambda>b p. on_progress t b = Inr p) bs ps"
  using assms(2)
proof (induction bs)
  case Nil
  then show ?case by simp
next
  case (Cons b bs)
  obtain p where p: "on_progress t b = Inr p"
    using on_progress_in_range [OF assms(1), of b] Cons.prems by auto
  obtain ps where ps: "run_callbacks t bs = (map progress ps, None)"
    "list_all2 (\<lambda>b p. on_progress t b = Inr p) bs ps"
    using Cons by auto
  have "run_callbacks t (b # bs) = (map progress (p # ps), None)" using p ps(1) by simp
  moreover have "list_all2 (\<lambda>b p. on_progress t b = Inr p) (b # bs) (p # ps)"
    using p ps(2) by simp
  ultimately show ?case by blast
qed

lemma percents_sorted:
  assumes "0 < t"
  shows "list_all2 (\<lambda>b p. on_progress t b = Inr p) bs ps \<Longrightarrow>
     \<forall>b \<in> set bs. 0 \<le> b \<and> b \<le> t \<Longrightarrow> sorted_wrt (\<ge>) bs \<Longrightarrow>
     sorted ps \<and> (\<forall>p \<in> set ps. 0 \<le> p \<and> p \<le> 100)"
proof (induction bs ps rule: list_all2_induct)
  case Nil
  then show ?case by simp
next
  case (Cons b bs p ps)
  have ih: "sorted ps" "\<forall>p \<in> set ps. 0 \<le> p \<and> p \<le> 100"
    using Cons by auto
  have b: "0 \<le> b" "b \<le> t" using Cons.prems by auto
  have pr: "0 \<le> p \<and> p \<le> 100"
    using on_progress_in_range [OF assms b] Cons.hyps(1) by auto
  have "p \<le> p'" if mem: "p' \<in> set ps" for p'
  proof -
    obtain i where i: "i < length ps" "ps ! i = p'"
      using mem by (auto simp: in_set_conv_nth)
    have len: "length bs = length ps" using Cons.hyps(2) by (rule list_all2_lengthD)
    define b' where "b' = bs ! i"
    have b': "b' \<in> set bs" "on_progress t b' = Inr p'"
      using i len list_all2_nthD2 [OF Cons.hyps(2) i(1)] by (auto simp: b'_def)
    have "b' \<le> b" "0 \<le> b'" using b'(1) Cons.prems by auto
    then show ?thesis
      using on_progress_mono [OF assms _ _ b(2) Cons.hyps(1) b'(2)] by simp
  qed
  then show ?case using ih pr by auto
qed

lemma run_callbacks_sorted:
  assumes "0 < t" "\<forall>b \<in> set bs. 0 \<le> b \<and> b \<le> t" "sorted_wrt (\<ge>) bs"
  shows "\<exists>ps. run_callbacks t bs = (map progress ps, None) \<and> sorted ps \<and>
           (\<forall>p \<in> set ps. 0 \<le> p \<and> p \<le> 100)"
proof -
  obtain ps where ps: "run_callbacks t bs = (map progress ps, None)"
    "list_all2 (\<lambda>b p. on_progress t b = Inr p) bs ps"
    using run_callbacks_percents [OF assms(1,2)] by blast
  show ?thesis
    using ps(1) percents_sorted [OF assms(1) ps(2) assms(2,3)] by blast
qed

text \<open>A file of size 0 makes the first call of the callback raise.\<close>

lemma on_progress_zero_size:
  "on_progress 0 0 = Inl (ZeroDivisionError ''division by zero'')"
  by (simp add: on_progress_def py_truediv_def)

section \<open>Properties of the specification\<close>

text \<open>
  C1. Every run of \<open>Worker.run\<close> that reaches its end emits exactly one \<open>finished\<close>
  notification, and it is the last emission of the run: whatever the library does
  (\<open>YouTube(...)\<close> raises, the stream query raises or finds no stream, the transfer or
  the callback raises, or the transfer succeeds), the emissions are a list without a
  \<open>finished\<close> notification followed by one \<open>finished\<close> notification.
\<close>

theorem Worker_run_one_terminal:
  "\<exists>ns m. Worker_run YouTube w = ns @ [finished m] \<and> filter is_finished ns = []"
proof (cases "YouTube (url w) (proxies_of (proxy w))")
  case (Inl exc)
  then show ?thesis by (simp add: Worker_run_def)
next
  case (Inr yt)
  obtain ns r where t: "transfer w yt = (ns, r)" by (cases "transfer w yt")
  show ?thesis
  proof (cases r)
    case None
    with transfer_shape [OF t] Inr t show ?thesis by (auto simp: Worker_run_def)
  next
    case (Some e)
    with transfer_shape [OF t] Inr t show ?thesis by (auto simp: Worker_run_def)
  qed
qed

text \<open>
  C2. The fourth test vector does not hold: the pattern accepts a port of one to five
  digits, so \<open>http://host:99999\<close> is valid.
\<close>

theorem proxy_vector_99999_accepted: "is_valid_proxy ''http://host:99999'' = True"
  by code_simp

text \<open>
  C2, as amended. The empty string and \<open>http://127.0.0.1:8881\<close> are valid,
  \<open>ftp://x\<close> is not, \<open>http://host:99999\<close> is valid, and a port of six digits is
  rejected.
\<close>

theorem proxy_vectors:
  "is_valid_proxy [] \<and> is_valid_proxy ''http://127.0.0.1:8881'' \<and>
   \<not> is_valid_proxy ''ftp://x'' \<and> is_valid_proxy ''http://host:99999'' \<and>
   \<not> is_valid_proxy ''http://host:999999''"
  by code_simp

text \<open>
  C3. With a file of 100 bytes and 71 bytes remaining, 29 bytes are downloaded and the
  exact percentage is 29; the callback emits 28, because the quotient \<open>29 / 100\<close> is
  rounded to a binary64 number below 0.29 and the product with 100 to one below 29.
  (That the percentages of a transfer lie between 0 and 100 and do not decrease is
  \<open>run_callbacks_sorted\<close> above.)
\<close>

theorem on_progress_29_of_100:
  "on_progress 100 71 = Inr 28 \<and> \<lfloor>(100 - 71 :: rat) / 100 * 100\<rfloor> = 29"
proof
  show "on_progress 100 71 = Inr 28" by code_simp
  show "\<lfloor>(100 - 71 :: rat) / 100 * 100\<rfloor> = 29" by simp
qed

text \<open>
  C4. The selection of \<open>Worker.run\<close> finds no stream exactly when no resolved stream is
  of the requested kind; otherwise it returns a stream of the requested kind whose
  quality rank is greatest among the streams of that kind. For an audio job offered
  audio-only streams of bitrates 128 and 256 and one video stream, this is the stream of
  bitrate 256.
\<close>

theorem select_stream_max:
  "(select_stream f ss = None \<longleftrightarrow> filter (kind_matches f) ss = []) \<and>
   (\<forall>st. select_stream f ss = Some st \<longrightarrow>
      st \<in> set (filter (kind_matches f) ss) \<and>
      (\<forall>s \<in> set (filter (kind_matches f) ss). qualityRank f s \<le> qualityRank f st))"
proof -
  let ?xs = "filter (kind_matches f) ss"
  let ?ys = "sort_key (qualityRank f) ?xs"
  have set: "set ?ys = set ?xs" by simp
  have srt: "sorted (map (qualityRank f) ?ys)" by (rule sorted_sort_key)
  have ne: "?xs \<noteq> [] \<Longrightarrow> ?ys \<noteq> []" using set by (metis set_empty)
  have mem: "?xs \<noteq> [] \<Longrightarrow> last ?ys \<in> set ?xs" using ne set last_in_set by blast
  have mx: "\<And>s. s \<in> set ?xs \<Longrightarrow> qualityRank f s \<le> qualityRank f (last ?ys)"
    using sorted_map_last_max [OF srt] set by blast
  show ?thesis
    unfolding select_stream_eq using mem mx by (auto split: if_splits)
qed

theorem select_stream_max_witness:
  "select_stream ''audio'' [audio_128, audio_256, video_720] = Some audio_256 \<and>
   filter (kind_matches ''audio'') [audio_128, audio_256, video_720] = [audio_128, audio_256] \<and>
   qualityRank ''audio'' audio_128 \<le> qualityRank ''audio'' audio_256"
proof -
  have k: "filter (kind_matches ''audio'') [audio_128, audio_256, video_720]
      = [audio_128, audio_256]"
    by (simp add: kind_matches_def is_audio_only_def audio_128_def audio_256_def video_720_def)
  show ?thesis
    using select_stream_max [of "''audio''" "[audio_128, audio_256, video_720]"]
      select_audio_scenario k
    by simp
qed




text \<open>
  C6. The failure for want of a stream is not reported apart from a transfer error: an
  audio job for which the library offers only a video stream, and an audio job whose
  transfer fails with the same text, emit the same single notification.
\<close>

theorem no_stream_same_as_transfer_error:
  "select_stream (fmt audio_job) [video_720] = None \<and>
   select_stream (fmt audio_job) [failing_audio] = Some failing_audio \<and>
   Worker_run (lib_of [video_720]) audio_job
     = [finished (download_error_text @ no_stream_text)] \<and>
   Worker_run (lib_of [failing_audio]) audio_job
     = [finished (download_error_text @ no_stream_text)]"
proof -
  have a: "select_stream (fmt audio_job) [video_720] = None"
    by (simp add: audio_job_def select_stream_def first_def desc_def order_by_def
        filter_streams_def is_audio_only_def video_720_def)
  have b: "select_stream (fmt audio_job) [failing_audio] = Some failing_audio"
    by (simp add: audio_job_def select_stream_def first_def desc_def order_by_def
        filter_streams_def is_audio_only_def failing_audio_def)
  have c: "Worker_run (lib_of [video_720]) audio_job
      = [finished (download_error_text @ no_stream_text)]"
    by (simp add: Worker_run_def lib_of_def transfer_def a)
  have d: "Worker_run (lib_of [failing_audio]) audio_job
      = [finished (download_error_text @ no_stream_text)]"
    by (simp add: Worker_run_def lib_of_def transfer_def b) (simp add: failing_audio_def)
  show ?thesis using a b c d by simp
qed

text \<open>
  C6, as amended. When the library resolves the target and no resolved stream is of the
  requested kind, the run consists of the single \<open>finished\<close> notification that the
  handler of the transfer emits: the text of a download error, followed by the text of
  the \<open>RuntimeError\<close> raised for the missing stream.
\<close>

theorem no_stream_failure:
  assumes "YouTube (url w) (proxies_of (proxy w)) = Inr yt"
    and "streams yt = Inr ss"
    and "filter (kind_matches (fmt w)) ss = []"
  shows "Worker_run YouTube w = [finished (download_error_text @ no_stream_text)]"
proof -
  have "select_stream (fmt w) ss = None"
    using assms(3) by (simp add: select_stream_eq)
  then show ?thesis
    using assms(1,2) by (simp add: Worker_run_def transfer_def)
qed

theorem no_stream_failure_witness:
  "lib_of [video_720] (url audio_job) (proxies_of (proxy audio_job))
     = Inr \<lparr>streams = Inr [video_720]\<rparr> \<and>
   filter (kind_matches (fmt audio_job)) [video_720] = [] \<and>
   Worker_run (lib_of [video_720]) audio_job
     = [finished (download_error_text @ no_stream_text)]"
proof -
  have h1: "lib_of [video_720] (url audio_job) (proxies_of (proxy audio_job))
      = Inr \<lparr>streams = Inr [video_720]\<rparr>"
    by (simp add: lib_of_def)
  have h2: "streams \<lparr>streams = Inr [video_720]\<rparr> = Inr [video_720]"
    by simp
  have h3: "filter (kind_matches (fmt audio_job)) [video_720] = []"
    by (simp add: kind_matches_def audio_job_def is_audio_only_def video_720_def)
  show ?thesis
    using h1 h2 h3
      no_stream_failure [of "lib_of [video_720]" audio_job "\<lparr>streams = Inr [video_720]\<rparr>"
        "[video_720]"]
    by simp
qed

text \<open>
  C7. While \<open>isRunning()\<close> is false, \<open>schedule_task\<close> raises the \<open>RuntimeError\<close> that
  says the thread is not started, for every coroutine, and leaves the thread object as it
  was: nothing is handed to a loop. This is so before \<open>start()\<close> and after a completed
  \<open>stop()\<close>.
\<close>

theorem schedule_task_not_running:
  "\<not> isRunning t \<Longrightarrow> schedule_task coro t = (Inl (RuntimeError not_running_text), t)"
  by (simp add: schedule_task_def)

theorem schedule_task_not_running_witness:
  "\<not> isRunning (DownloadThread_init :: Worker DownloadThread) \<and>
   schedule_task audio_job DownloadThread_init
     = (Inl (RuntimeError not_running_text), DownloadThread_init) \<and>
   \<not> isRunning stopped_thread \<and>
   schedule_task audio_job stopped_thread
     = (Inl (RuntimeError not_running_text), stopped_thread)"
proof -
  have h1: "\<not> isRunning (DownloadThread_init :: Worker DownloadThread)"
    by (simp add: DownloadThread_init_def)
  have h2: "\<not> isRunning stopped_thread"
    by (simp add: stopped_thread_eq)
  show ?thesis
    using h1 h2 schedule_task_not_running [OF h1, of audio_job]
      schedule_task_not_running [OF h2, of audio_job]
    by simp
qed

text \<open>
  C8. After one \<open>stop()\<close>, a second \<open>stop()\<close> returns without raising and leaves the
  thread object as the first left it.
\<close>

theorem stop_idempotent: "stop (snd (stop t)) = (Inr (), snd (stop t))"
  by (simp add: stop_def split: option.splits)

text \<open>
  C9. A second \<open>start()\<close> on a started thread raises nothing: it returns normally and
  the thread object, with its one loop, is unchanged.
\<close>

theorem second_start_returns:
  "isRunning started_thread \<and> start started_thread = (Inr (), started_thread)"
  by (simp add: started_thread_eq start_def)

text \<open>
  C9, as amended. On a thread that is running, \<open>start()\<close> returns without raising and
  changes nothing; no second loop is created.
\<close>

theorem start_when_running: "isRunning t \<Longrightarrow> start t = (Inr (), t)"
  by (simp add: start_def)

theorem start_when_running_witness:
  "isRunning started_thread \<and> snd (start started_thread) = started_thread \<and>
   fst (start started_thread) = Inr ()"
proof -
  have h: "isRunning started_thread"
    by (simp add: started_thread_eq)
  show ?thesis
    using h start_when_running [OF h] by simp
qed

text \<open>
  C10. When the loop is unset or the thread is not running, \<open>stop()\<close> returns without
  raising and without changing the thread object; in particular before any \<open>start()\<close>.
\<close>

theorem stop_guard: "loop t = None \<or> \<not> isRunning t \<Longrightarrow> stop t = (Inr (), t)"
  by (auto simp: stop_def split: option.splits)

theorem stop_guard_witness:
  "loop (DownloadThread_init :: Worker DownloadThread) = None \<and>
   \<not> isRunning (DownloadThread_init :: Worker DownloadThread) \<and>
   stop (DownloadThread_init :: Worker DownloadThread) = (Inr (), DownloadThread_init)"
proof -
  have h: "loop (DownloadThread_init :: Worker DownloadThread) = None"
    by (simp add: DownloadThread_init_def)
  have h': "\<not> isRunning (DownloadThread_init :: Worker DownloadThread)"
    by (simp add: DownloadThread_init_def)
  have g: "loop (DownloadThread_init :: Worker DownloadThread) = None
      \<or> \<not> isRunning (DownloadThread_init :: Worker DownloadThread)"
    using h by simp
  show ?thesis
    using h h' stop_guard [OF g] by simp
qed

end
